theory Spec2Isabelle
  imports Main "HOL-Library.Sublist"
begin

unbundle bit_operations_syntax

section \<open>LSB steganography codec: the data model\<close>

text \<open>
  The codec of \<^verbatim>\<open>LSB Steganography.py\<close> works on the pixel list that
  \<^verbatim>\<open>list(img.getdata())\<close> returns for an RGB image: a list of triples of Python
  integers. A Python string is a sequence of code points; code points are natural numbers,
  so that characters above 255 can be written down. The text of binary digits that the
  source builds (\<^verbatim>\<open>binary_message\<close>) is a string over the two characters 0 and 1.
\<close>

type_synonym pixel = "int \<times> int \<times> int"

type_synonym pystr = "nat list"

definition py_str :: "string \<Rightarrow> pystr" where
  "py_str s = map of_char s"

definition delimiter :: pystr where
  "delimiter = py_str ''|||END|||''"

datatype py_exception = ValueError

datatype encode_error = CapacityExceeded nat

section \<open>Encoder\<close>

text \<open>\<^verbatim>\<open>bin(n)[2:]\<close>: the binary digits of a non-negative integer, most significant first.\<close>

fun bin_digits :: "nat \<Rightarrow> string" where
  "bin_digits n =
     (if n < 2 then [if n = 0 then CHR ''0'' else CHR ''1'']
      else bin_digits (n div 2) @ [if n mod 2 = 0 then CHR ''0'' else CHR ''1''])"

declare bin_digits.simps [simp del]

text \<open>\<^verbatim>\<open>format(n, '08b')\<close>: the binary digits, padded with zeros on the left up to
  width 8. A number with more than 8 digits keeps all of them.\<close>

definition format_08b :: "nat \<Rightarrow> string" where
  "format_08b n = replicate (8 - length (bin_digits n)) CHR ''0'' @ bin_digits n"

text \<open>\<^verbatim>\<open>''.join(format(ord(char), '08b') for char in message_with_delimiter)\<close>\<close>

definition binary_message :: "pystr \<Rightarrow> string" where
  "binary_message message_with_delimiter = concat (map format_08b message_with_delimiter)"

text \<open>\<^verbatim>\<open>int(binary_message[binary_index])\<close> on a digit of the binary message, which holds
  only the characters 0 and 1 (lemma \<open>binary_message_digits\<close> below).\<close>

definition int_of_digit :: "char \<Rightarrow> int" where
  "int_of_digit d = (if d = CHR ''1'' then 1 else 0)"

text \<open>One channel of the loop body:
  \<^verbatim>\<open>if binary_index < len(binary_message):
      r = (r & 0xFE) | int(binary_message[binary_index]); binary_index += 1\<close>\<close>

definition encode_channel :: "string \<Rightarrow> int \<times> nat \<Rightarrow> int \<times> nat" where
  "encode_channel bm cb =
     (case cb of (c, binary_index) \<Rightarrow>
        if binary_index < length bm
        then ((c AND 0xFE) OR int_of_digit (bm ! binary_index), binary_index + 1)
        else (c, binary_index))"

text \<open>The body of \<^verbatim>\<open>for pixel in pixels\<close>: red, then green, then blue.\<close>

definition encode_pixel :: "string \<Rightarrow> pixel \<Rightarrow> nat \<Rightarrow> pixel \<times> nat" where
  "encode_pixel bm pixel binary_index =
     (case pixel of (r, g, b) \<Rightarrow>
        case encode_channel bm (r, binary_index) of (r', i1) \<Rightarrow>
        case encode_channel bm (g, i1) of (g', i2) \<Rightarrow>
        case encode_channel bm (b, i2) of (b', i3) \<Rightarrow>
          ((r', g', b'), i3))"

text \<open>The loop, with its two variables \<^verbatim>\<open>new_pixels\<close> and \<^verbatim>\<open>binary_index\<close>.\<close>

fun encode_loop :: "string \<Rightarrow> pixel list \<Rightarrow> pixel list \<Rightarrow> nat \<Rightarrow> pixel list" where
  "encode_loop bm [] new_pixels binary_index = new_pixels"
| "encode_loop bm (pixel # pixels) new_pixels binary_index =
     (case encode_pixel bm pixel binary_index of (p', binary_index') \<Rightarrow>
        encode_loop bm pixels (new_pixels @ [p']) binary_index')"

text \<open>
  \<^verbatim>\<open>encode_lsb\<close> between loading and saving the image: the pixel list stands for the loaded
  image, the returned list is what the source hands to \<^verbatim>\<open>putdata\<close>. The early
  \<^verbatim>\<open>return False\<close> with its printed maximum is the error \<open>CapacityExceeded\<close>.
  Between the two, no operation of the source can raise: the index into the binary message
  is guarded by \<^verbatim>\<open>binary_index < len(binary_message)\<close>, and \<^verbatim>\<open>int\<close> reads a digit.
\<close>

definition encode_lsb :: "pixel list \<Rightarrow> pystr \<Rightarrow> encode_error + pixel list" where
  "encode_lsb pixels message =
     (let message_with_delimiter = message @ delimiter;
          bm = binary_message message_with_delimiter
      in if length bm > length pixels * 3
         then Inl (CapacityExceeded (length pixels * 3 div 8))
         else Inr (encode_loop bm pixels [] 0))"

section \<open>Decoder\<close>

text \<open>\<^verbatim>\<open>str(c & 1)\<close>: the value \<^verbatim>\<open>c & 1\<close> is 0 or 1, printed as one digit.\<close>

definition str_lsb :: "int \<Rightarrow> string" where
  "str_lsb c = (if c AND 1 = 0 then ''0'' else ''1'')"

text \<open>The first loop: the digits of red, green and blue are appended for each pixel.\<close>

definition extract_bits :: "pixel list \<Rightarrow> string" where
  "extract_bits pixels =
     foldl (\<lambda>bm pixel. case pixel of (r, g, b) \<Rightarrow> bm @ str_lsb r @ str_lsb g @ str_lsb b)
       [] pixels"

text \<open>\<^verbatim>\<open>int(byte, 2)\<close> on a text of binary digits: the empty text and any other
  character raise \<^verbatim>\<open>ValueError\<close>.\<close>

definition bin_value :: "string \<Rightarrow> nat" where
  "bin_value s = foldl (\<lambda>acc d. 2 * acc + (if d = CHR ''1'' then 1 else 0)) 0 s"

definition int_base2 :: "string \<Rightarrow> py_exception + nat" where
  "int_base2 s =
     (if s = [] \<or> (\<exists>d \<in> set s. d \<noteq> CHR ''0'' \<and> d \<noteq> CHR ''1'') then Inl ValueError
      else Inr (bin_value s))"

text \<open>\<^verbatim>\<open>chr(n)\<close> raises \<^verbatim>\<open>ValueError\<close> beyond the last code point.\<close>

definition py_chr :: "nat \<Rightarrow> py_exception + nat" where
  "py_chr n = (if n \<le> 0x10FFFF then Inr n else Inl ValueError)"

text \<open>\<^verbatim>\<open>message.replace(old, '')\<close>: every occurrence of \<open>old\<close>, found from the left and
  not overlapping an earlier one, is removed.\<close>

function replace_empty :: "pystr \<Rightarrow> pystr \<Rightarrow> pystr" where
  "replace_empty old s =
     (if old = [] \<or> s = [] then s
      else if prefix old s then replace_empty old (drop (length old) s)
      else hd s # replace_empty old (tl s))"
  by pat_completeness auto
termination
  by (relation "measure (\<lambda>(old, s). length s)") (auto simp: Suc_le_eq)

declare replace_empty.simps [simp del]

text \<open>
  The second loop, \<^verbatim>\<open>for i in range(0, len(binary_message), 8)\<close>, with the variable
  \<^verbatim>\<open>message\<close>. A slice shorter than 8 is skipped. An exception of \<^verbatim>\<open>int\<close> or
  \<^verbatim>\<open>chr\<close> is the value \<open>Inl\<close>: the source's handler prints it and returns
  \<^verbatim>\<open>None\<close>. Reaching the end of the loop is \<open>Inr None\<close>, the return of
  \<^verbatim>\<open>None\<close> after "No hidden message found".
\<close>

function decode_loop :: "string \<Rightarrow> nat \<Rightarrow> pystr \<Rightarrow> py_exception + pystr option" where
  "decode_loop bm i message =
     (if i < length bm then
        (let byte = take 8 (drop i bm) in
         if length byte = 8 then
           (case int_base2 byte of
              Inl e \<Rightarrow> Inl e
            | Inr n \<Rightarrow>
               (case py_chr n of
                  Inl e \<Rightarrow> Inl e
                | Inr char \<Rightarrow>
                   (let message' = message @ [char] in
                    if suffix delimiter message'
                    then Inr (Some (replace_empty delimiter message'))
                    else decode_loop bm (i + 8) message')))
         else decode_loop bm (i + 8) message)
      else Inr None)"
  by pat_completeness auto
termination
  by (relation "measure (\<lambda>(bm, i, message). length bm - i)") auto

declare decode_loop.simps [simp del]

definition decode_lsb :: "pixel list \<Rightarrow> py_exception + pystr option" where
  "decode_lsb pixels = decode_loop (extract_bits pixels) 0 []"

section \<open>Notions used to state the properties\<close>

text \<open>Channel \<open>i\<close> of a pixel list, counted red, green, blue through the pixels:
  channel \<open>i mod 3\<close> of pixel \<open>i div 3\<close>.\<close>

definition component :: "pixel \<Rightarrow> nat \<Rightarrow> int" where
  "component pixel k = (case pixel of (r, g, b) \<Rightarrow> if k = 0 then r else if k = 1 then g else b)"

definition channel :: "pixel list \<Rightarrow> nat \<Rightarrow> int" where
  "channel pixels i = component (pixels ! (i div 3)) (i mod 3)"

text \<open>All channels of a pixel list in that order.\<close>

definition channels :: "pixel list \<Rightarrow> int list" where
  "channels pixels = concat (map (\<lambda>(r, g, b). [r, g, b]) pixels)"

text \<open>What the encoder's loop does to the channel with index \<open>i\<close>, and to a pixel list
  whose first channel has index \<open>v\<close>, written without the loop's variables.\<close>

definition embed_bit :: "string \<Rightarrow> nat \<Rightarrow> int \<Rightarrow> int" where
  "embed_bit bm i c = (if i < length bm then (c AND 0xFE) OR int_of_digit (bm ! i) else c)"

fun embed_bits :: "string \<Rightarrow> nat \<Rightarrow> pixel list \<Rightarrow> pixel list" where
  "embed_bits bm v [] = []"
| "embed_bits bm v ((r, g, b) # pixels) =
     (embed_bit bm v r, embed_bit bm (v + 1) g, embed_bit bm (v + 2) b) # embed_bits bm (v + 3) pixels"

text \<open>The digit that the decoder reads from a channel.\<close>

definition lsb_digit :: "int \<Rightarrow> char" where
  "lsb_digit c = (if c AND 1 = 0 then CHR ''0'' else CHR ''1'')"

text \<open>The complete groups of 8 digits of a text of digits, from its start; a shorter
  rest is not a group.\<close>

fun chunks8 :: "string \<Rightarrow> string list" where
  "chunks8 bs = (if length bs < 8 then [] else take 8 bs # chunks8 (drop 8 bs))"

declare chunks8.simps [simp del]

text \<open>The character stream carried by the least significant bits of a pixel list: one
  character for each complete group of 8 bits, read most significant bit first.\<close>

definition lsb_chars :: "pixel list \<Rightarrow> pystr" where
  "lsb_chars pixels = map bin_value (chunks8 (extract_bits pixels))"

text \<open>The scan for the delimiter over a character stream, started with the characters
  \<open>message\<close> already read: the first time the text read so far ends with the delimiter, all
  occurrences of the delimiter are removed from it and the scan stops.\<close>

fun scan :: "pystr \<Rightarrow> pystr \<Rightarrow> pystr option" where
  "scan [] message = None"
| "scan (c # cs) message =
     (if suffix delimiter (message @ [c]) then Some (replace_empty delimiter (message @ [c]))
      else scan cs (message @ [c]))"

text \<open>A message is made of single-byte characters.\<close>

definition single_byte :: "pystr \<Rightarrow> bool" where
  "single_byte m = (\<forall>c \<in> set m. c \<le> 255)"

text \<open>The delimiter occurs in the framed message only at its end: no occurrence starts
  inside the message.\<close>

definition delimiter_only_at_end :: "pystr \<Rightarrow> bool" where
  "delimiter_only_at_end m = (\<forall>k < length m. \<not> prefix delimiter (drop k (m @ delimiter)))"

section \<open>Binary digits\<close>

lemma bin_digits_set: "set (bin_digits n) \<subseteq> {CHR ''0'', CHR ''1''}"
proof (induction n rule: bin_digits.induct)
  case (1 n)
  show ?case
  proof (cases "n < 2")
    case True
    then show ?thesis by (simp add: bin_digits.simps [of n])
  next
    case False
    with 1 show ?thesis by (simp add: bin_digits.simps [of n])
  qed
qed

lemma bin_digits_nonempty: "bin_digits n \<noteq> []"
  by (simp add: bin_digits.simps [of n])

lemma foldl_bin_shift:
  "foldl (\<lambda>acc d. 2 * acc + (if d = CHR ''1'' then 1 else 0)) a s
     = a * 2 ^ length s + foldl (\<lambda>acc d. 2 * acc + (if d = CHR ''1'' then 1 else 0)) (0::nat) s"
proof -
  define f :: "nat \<Rightarrow> char \<Rightarrow> nat"
    where "f = (\<lambda>acc d. 2 * acc + (if d = CHR ''1'' then 1 else 0))"
  have "foldl f a s = a * 2 ^ length s + foldl f 0 s"
  proof (induction s arbitrary: a)
    case Nil
    show ?case by simp
  next
    case (Cons d s)
    have "foldl f (f a d) s = f a d * 2 ^ length s + foldl f 0 s"
      by (rule Cons.IH)
    moreover have "foldl f (f 0 d) s = f 0 d * 2 ^ length s + foldl f 0 s"
      by (rule Cons.IH)
    moreover have "f a d = 2 * a + f 0 d"
      by (simp add: f_def)
    ultimately show ?case
      by (simp add: algebra_simps)
  qed
  then show ?thesis by (simp add: f_def)
qed

lemma bin_value_Nil: "bin_value [] = 0"
  by (simp add: bin_value_def)

lemma bin_value_append:
  "bin_value (xs @ ys) = bin_value xs * 2 ^ length ys + bin_value ys"
  unfolding bin_value_def foldl_append by (rule foldl_bin_shift)

lemma bin_value_single: "bin_value [d] = (if d = CHR ''1'' then 1 else 0)"
  by (simp add: bin_value_def)

lemma bin_value_zeros: "bin_value (replicate k CHR ''0'') = 0"
  by (induction k) (simp_all add: bin_value_def)

lemma bin_value_bin_digits: "bin_value (bin_digits n) = n"
proof (induction n rule: bin_digits.induct)
  case (1 n)
  show ?case
  proof (cases "n < 2")
    case True
    then show ?thesis by (auto simp add: bin_digits.simps [of n] bin_value_single)
  next
    case False
    with 1 have "bin_value (bin_digits (n div 2)) = n div 2" by simp
    with False show ?thesis
      by (simp add: bin_digits.simps [of n] bin_value_append bin_value_single) presburger
  qed
qed

lemma bin_value_format_08b: "bin_value (format_08b n) = n"
  by (simp add: format_08b_def bin_value_append bin_value_zeros bin_value_bin_digits)

lemma bin_value_less: "bin_value s < 2 ^ length s"
proof (induction s rule: rev_induct)
  case Nil
  show ?case by (simp add: bin_value_Nil)
next
  case (snoc d s)
  then show ?case by (simp add: bin_value_append bin_value_single)
qed

lemma length_bin_digits_le: "n < 2 ^ k \<Longrightarrow> 0 < k \<Longrightarrow> length (bin_digits n) \<le> k"
proof (induction n arbitrary: k rule: bin_digits.induct)
  case (1 n)
  show ?case
  proof (cases "n < 2")
    case True
    with 1 show ?thesis by (simp add: bin_digits.simps [of n] Suc_le_eq)
  next
    case False
    obtain j where k: "k = Suc j" using \<open>0 < k\<close> by (cases k) auto
    have "j \<noteq> 0" using False \<open>n < 2 ^ k\<close> k by (cases j) auto
    moreover have "n div 2 < 2 ^ j" using \<open>n < 2 ^ k\<close> k by simp
    ultimately have "length (bin_digits (n div 2)) \<le> j"
      using 1(1) [of j] False by simp
    with False k show ?thesis by (simp add: bin_digits.simps [of n])
  qed
qed

lemma length_bin_digits_gt: "2 ^ k \<le> n \<Longrightarrow> k < length (bin_digits n)"
proof (induction n arbitrary: k rule: bin_digits.induct)
  case (1 n)
  show ?case
  proof (cases "n < 2")
    case True
    have "k = 0"
    proof (cases k)
      case 0
      then show ?thesis .
    next
      case (Suc j)
      have "(1::nat) \<le> 2 ^ j" by simp
      with Suc 1(2) True show ?thesis by simp
    qed
    then show ?thesis by (simp add: bin_digits.simps [of n])
  next
    case False
    show ?thesis
    proof (cases k)
      case 0
      then show ?thesis by (simp add: bin_digits.simps [of n])
    next
      case (Suc j)
      with 1(2) have "2 ^ j \<le> n div 2" by simp
      with 1(1) [of j] False have "j < length (bin_digits (n div 2))" by simp
      with False Suc show ?thesis by (simp add: bin_digits.simps [of n])
    qed
  qed
qed

lemma length_format_08b: "n \<le> 255 \<Longrightarrow> length (format_08b n) = 8"
proof -
  assume "n \<le> 255"
  then have "n < 2 ^ 8" by simp
  then have "length (bin_digits n) \<le> 8" by (rule length_bin_digits_le) simp
  then show ?thesis by (simp add: format_08b_def)
qed

lemma length_format_08b_ge: "8 \<le> length (format_08b n)"
  by (simp add: format_08b_def)

lemma length_format_08b_big: "255 < n \<Longrightarrow> 8 < length (format_08b n)"
proof -
  assume "255 < n"
  then have "2 ^ 8 \<le> n" by simp
  then have "8 < length (bin_digits n)" by (rule length_bin_digits_gt)
  then show ?thesis by (simp add: format_08b_def)
qed

lemma format_08b_set: "set (format_08b n) \<subseteq> {CHR ''0'', CHR ''1''}"
  using bin_digits_set [of n] by (auto simp add: format_08b_def)

lemma binary_message_digits: "set (binary_message m) \<subseteq> {CHR ''0'', CHR ''1''}"
  using format_08b_set by (fastforce simp add: binary_message_def)

lemma length_binary_message:
  "single_byte m \<Longrightarrow> length (binary_message m) = 8 * length m"
  by (induction m) (simp_all add: single_byte_def binary_message_def length_format_08b)

lemma length_binary_message_ge: "8 * length m \<le> length (binary_message m)"
proof (induction m)
  case Nil
  show ?case by (simp add: binary_message_def)
next
  case (Cons c m)
  then show ?case using length_format_08b_ge [of c] by (simp add: binary_message_def)
qed

lemma binary_message_append:
  "binary_message (xs @ ys) = binary_message xs @ binary_message ys"
  by (simp add: binary_message_def)

lemma delimiter_eq: "delimiter = [124, 124, 124, 69, 78, 68, 124, 124, 124]"
  by (simp add: delimiter_def py_str_def)

lemma length_delimiter: "length delimiter = 9"
  by (simp add: delimiter_eq)

lemma delimiter_bytes: "single_byte delimiter"
  by (simp add: single_byte_def delimiter_eq)

subsection \<open>The encoder's loop\<close>

lemma encode_channel_eq:
  "encode_channel bm (c, min v (length bm)) = (embed_bit bm v c, min (v + 1) (length bm))"
  by (auto simp add: encode_channel_def embed_bit_def min_def)

lemma encode_pixel_eq:
  "encode_pixel bm (r, g, b) (min v (length bm))
     = ((embed_bit bm v r, embed_bit bm (v + 1) g, embed_bit bm (v + 2) b),
        min (v + 3) (length bm))"
proof -
  have "v + 1 + 1 = v + 2" "v + 2 + 1 = v + 3" by simp_all
  then show ?thesis
    using encode_channel_eq [of bm r v] encode_channel_eq [of bm g "v + 1"]
      encode_channel_eq [of bm b "v + 2"]
    by (simp add: encode_pixel_def)
qed

lemma encode_loop_eq:
  "encode_loop bm pixels new_pixels (min v (length bm)) = new_pixels @ embed_bits bm v pixels"
proof (induction pixels arbitrary: new_pixels v)
  case Nil
  show ?case by simp
next
  case (Cons p pixels)
  obtain r g b where p: "p = (r, g, b)" by (cases p) auto
  show ?case
    by (simp add: p encode_pixel_eq Cons.IH)
qed

lemma encode_loop_embed: "encode_loop bm pixels [] 0 = embed_bits bm 0 pixels"
  using encode_loop_eq [of bm pixels "[]" 0] by simp

lemma length_embed_bits: "length (embed_bits bm v pixels) = length pixels"
  by (induction bm v pixels rule: embed_bits.induct) simp_all

lemma length_channels: "length (channels pixels) = 3 * length pixels"
  by (induction pixels) (auto simp add: channels_def)

lemma channels_Cons: "channels ((r, g, b) # pixels) = r # g # b # channels pixels"
  by (simp add: channels_def)

lemma channels_embed:
  "channels (embed_bits bm v pixels) = map (\<lambda>(i, c). embed_bit bm i c) (enumerate v (channels pixels))"
proof (induction bm v pixels rule: embed_bits.induct)
  case (1 bm v)
  show ?case by (simp add: channels_def)
next
  case (2 bm v r g b pixels)
  then show ?case by (simp add: channels_Cons eval_nat_numeral)
qed

lemma channels_embed_nth:
  assumes "i < 3 * length pixels"
  shows "channels (embed_bits bm 0 pixels) ! i = embed_bit bm i (channels pixels ! i)"
  using assms by (simp add: channels_embed length_channels nth_enumerate_eq)

lemma channels_nth: "i < 3 * length pixels \<Longrightarrow> channels pixels ! i = channel pixels i"
proof (induction pixels arbitrary: i)
  case Nil
  then show ?case by simp
next
  case (Cons p pixels)
  obtain r g b where p: "p = (r, g, b)" by (cases p) auto
  consider "i = 0" | "i = 1" | "i = 2" | "3 \<le> i" by linarith
  then show ?case
  proof cases
    case 4
    then obtain j where j: "i = j + 3" by (metis le_add_diff_inverse2)
    with Cons.prems have "j < 3 * length pixels" by simp
    then have "channels pixels ! j = channel pixels j" by (rule Cons.IH)
    moreover have "(j + 3) div 3 = Suc (j div 3)" "(j + 3) mod 3 = j mod 3" by simp_all
    ultimately show ?thesis
      by (simp add: p j channels_Cons channel_def)
  qed (simp_all add: p channels_Cons channel_def component_def)
qed

subsection \<open>Least significant bits\<close>

lemma lsb_digit_set: "lsb_digit c \<in> {CHR ''0'', CHR ''1''}"
  by (simp add: lsb_digit_def)

lemma str_lsb_eq: "str_lsb c = [lsb_digit c]"
  by (simp add: str_lsb_def lsb_digit_def)

lemma extract_bits_foldl:
  "foldl (\<lambda>bm (r, g, b). bm @ [lsb_digit r, lsb_digit g, lsb_digit b]) acc pixels
     = acc @ map lsb_digit (channels pixels)"
proof (induction pixels arbitrary: acc)
  case Nil
  show ?case by (simp add: channels_def)
next
  case (Cons p pixels)
  obtain r g b where p: "p = (r, g, b)" by (cases p) auto
  show ?case by (simp add: p Cons.IH channels_Cons)
qed

lemma extract_bits_eq: "extract_bits pixels = map lsb_digit (channels pixels)"
  by (simp add: extract_bits_def str_lsb_eq extract_bits_foldl)

lemma length_extract_bits: "length (extract_bits pixels) = 3 * length pixels"
  by (simp add: extract_bits_eq length_channels)

lemma extract_bits_digits: "set (extract_bits pixels) \<subseteq> {CHR ''0'', CHR ''1''}"
  using lsb_digit_set by (auto simp add: extract_bits_eq)

lemma int_of_digit_cases: "int_of_digit d = 0 \<or> int_of_digit d = 1"
  by (simp add: int_of_digit_def)

lemma lsb_embedded: "((c AND 0xFE) OR int_of_digit d) AND 1 = int_of_digit d"
proof -
  have "even (c AND 0xFE)" by (simp add: even_and_iff)
  then show ?thesis
    using int_of_digit_cases [of d] by (auto simp add: and_one_eq even_or_iff mod_2_eq_odd)
qed

lemma high_bits_embedded: "((c AND 0xFE) OR int_of_digit d) AND 0xFE = c AND (0xFE :: int)"
proof -
  have "int_of_digit d AND 0xFE = 0"
    using int_of_digit_cases [of d] by auto
  then show ?thesis
    by (simp add: bit.conj_disj_distrib2 and.assoc)
qed

lemma lsb_digit_embedded:
  "d \<in> {CHR ''0'', CHR ''1''} \<Longrightarrow> lsb_digit ((c AND 0xFE) OR int_of_digit d) = d"
  by (auto simp add: lsb_digit_def lsb_embedded) (simp_all add: int_of_digit_def)

lemma extract_bits_embed_bits:
  assumes fits: "length bm \<le> 3 * length pixels"
    and digits: "set bm \<subseteq> {CHR ''0'', CHR ''1''}"
  shows "extract_bits (embed_bits bm 0 pixels) = bm @ drop (length bm) (extract_bits pixels)"
proof (rule nth_equalityI)
  show "length (extract_bits (embed_bits bm 0 pixels))
          = length (bm @ drop (length bm) (extract_bits pixels))"
    using fits by (simp add: length_extract_bits length_embed_bits)
next
  fix i
  assume "i < length (extract_bits (embed_bits bm 0 pixels))"
  then have i: "i < 3 * length pixels"
    by (simp add: length_extract_bits length_embed_bits)
  then have lhs: "extract_bits (embed_bits bm 0 pixels) ! i
                    = lsb_digit (embed_bit bm i (channels pixels ! i))"
    by (simp add: extract_bits_eq length_channels length_embed_bits channels_embed_nth)
  show "extract_bits (embed_bits bm 0 pixels) ! i
          = (bm @ drop (length bm) (extract_bits pixels)) ! i"
  proof (cases "i < length bm")
    case True
    then have "bm ! i \<in> {CHR ''0'', CHR ''1''}" using digits by (meson nth_mem subsetD)
    then have "lsb_digit (embed_bit bm i (channels pixels ! i)) = bm ! i"
      using True by (simp add: embed_bit_def lsb_digit_embedded)
    with lhs True show ?thesis by (simp add: nth_append)
  next
    case False
    then have "(bm @ drop (length bm) (extract_bits pixels)) ! i = extract_bits pixels ! i"
      using fits i by (simp add: nth_append length_extract_bits)
    also have "\<dots> = lsb_digit (channels pixels ! i)"
      using i by (simp add: extract_bits_eq length_channels)
    finally show ?thesis using lhs False by (simp add: embed_bit_def)
  qed
qed

subsection \<open>The decoder's loop is the scan of the character stream\<close>

lemma int_base2_digits:
  "s \<noteq> [] \<Longrightarrow> set s \<subseteq> {CHR ''0'', CHR ''1''} \<Longrightarrow> int_base2 s = Inr (bin_value s)"
  by (auto simp add: int_base2_def)

lemma py_chr_byte: "length s = 8 \<Longrightarrow> py_chr (bin_value s) = Inr (bin_value s)"
proof -
  assume "length s = 8"
  with bin_value_less [of s] have "bin_value s < 256" by simp
  then show ?thesis by (simp add: py_chr_def)
qed

lemma chunks8_short: "length bs < 8 \<Longrightarrow> chunks8 bs = []"
  by (simp add: chunks8.simps [of bs])

lemma chunks8_long: "8 \<le> length bs \<Longrightarrow> chunks8 bs = take 8 bs # chunks8 (drop 8 bs)"
  by (simp add: chunks8.simps [of bs])

lemma decode_loop_end: "\<not> i < length bm \<Longrightarrow> decode_loop bm i message = Inr None"
  by (subst decode_loop.simps) (simp only: if_False)

lemma decode_loop_skip:
  "i < length bm \<Longrightarrow> length (take 8 (drop i bm)) \<noteq> 8
     \<Longrightarrow> decode_loop bm i message = decode_loop bm (i + 8) message"
  by (subst decode_loop.simps) (simp only: Let_def if_True if_False)

lemma decode_loop_char:
  "i < length bm \<Longrightarrow> length (take 8 (drop i bm)) = 8
     \<Longrightarrow> int_base2 (take 8 (drop i bm)) = Inr n \<Longrightarrow> py_chr n = Inr c
     \<Longrightarrow> decode_loop bm i message =
          (if suffix delimiter (message @ [c])
           then Inr (Some (replace_empty delimiter (message @ [c])))
           else decode_loop bm (i + 8) (message @ [c]))"
  by (subst decode_loop.simps) (simp only: Let_def if_True sum.case simp_thms)

lemma decode_loop_scan:
  assumes digits: "set bm \<subseteq> {CHR ''0'', CHR ''1''}"
  shows "decode_loop bm i message = Inr (scan (map bin_value (chunks8 (drop i bm))) message)"
  using digits
proof (induction bm i message rule: decode_loop.induct)
  case (1 bm i message)
  let ?byte = "take 8 (drop i bm)"
  let ?c = "bin_value ?byte"
  show ?case
  proof (cases "i < length bm")
    case False
    then have "decode_loop bm i message = Inr None"
      by (rule decode_loop_end)
    moreover from False have "chunks8 (drop i bm) = []"
      by (simp add: chunks8_short)
    ultimately show ?thesis by simp
  next
    case True
    show ?thesis
    proof (cases "length ?byte = 8")
      case False
      with True have "decode_loop bm i message = decode_loop bm (i + 8) message"
        by (rule decode_loop_skip)
      also from False have "\<not> i + 8 < length bm" by auto
      then have "decode_loop bm (i + 8) message = Inr None"
        by (rule decode_loop_end)
      finally have "decode_loop bm i message = Inr None" .
      moreover from False have "chunks8 (drop i bm) = []"
        by (simp add: chunks8_short)
      ultimately show ?thesis by simp
    next
      case len: True
      have "set ?byte \<subseteq> set bm"
        by (meson set_take_subset set_drop_subset subset_trans)
      with \<open>set bm \<subseteq> {CHR ''0'', CHR ''1''}\<close> have "set ?byte \<subseteq> {CHR ''0'', CHR ''1''}"
        by blast
      moreover from len have "?byte \<noteq> []" by auto
      ultimately have int: "int_base2 ?byte = Inr ?c"
        by (simp add: int_base2_digits)
      have chr: "py_chr ?c = Inr ?c"
        using len by (rule py_chr_byte)
      from len have "8 \<le> length (drop i bm)" by simp
      then have chunks: "chunks8 (drop i bm) = ?byte # chunks8 (drop (i + 8) bm)"
        by (simp add: chunks8_long add.commute)
      note step = decode_loop_char [OF True len int chr, of message]
      show ?thesis
      proof (cases "suffix delimiter (message @ [?c])")
        case True
        with step show ?thesis
          by (simp add: chunks del: suffix_snoc)
      next
        case False
        with step
        have "decode_loop bm i message = decode_loop bm (i + 8) (message @ [?c])"
          by (simp del: suffix_snoc)
        also have "\<dots> = Inr (scan (map bin_value (chunks8 (drop (i + 8) bm))) (message @ [?c]))"
          using "1.IH"(1) [OF True refl len int chr refl False] "1.prems" .
        finally show ?thesis using False by (simp add: chunks del: suffix_snoc)
      qed
    qed
  qed
qed

lemma decode_lsb_scan: "decode_lsb pixels = Inr (scan (lsb_chars pixels) [])"
  by (simp add: decode_lsb_def lsb_chars_def decode_loop_scan [OF extract_bits_digits])

subsection \<open>Groups of 8 digits\<close>

lemma chunks8_groups:
  "\<forall>g \<in> set gs. length g = 8 \<Longrightarrow> chunks8 (concat gs @ rest) = gs @ chunks8 rest"
proof (induction gs)
  case Nil
  show ?case by simp
next
  case (Cons g gs)
  then have g: "length g = 8" by simp
  then have "chunks8 (g @ concat gs @ rest) = g # chunks8 (concat gs @ rest)"
    by (simp add: chunks8_long)
  with Cons show ?case by simp
qed

lemma chunks8_binary_message:
  assumes "single_byte m"
  shows "map bin_value (chunks8 (binary_message m @ rest)) = m @ map bin_value (chunks8 rest)"
proof -
  have "\<forall>g \<in> set (map format_08b m). length g = 8"
    using assms by (auto simp add: single_byte_def length_format_08b)
  then have "chunks8 (binary_message m @ rest) = map format_08b m @ chunks8 rest"
    unfolding binary_message_def by (rule chunks8_groups)
  moreover have "map bin_value (map format_08b m) = m"
    by (simp add: bin_value_format_08b map_idI)
  ultimately show ?thesis by simp
qed

lemma chunks8_complete: "chunks8 (take (8 * (length bs div 8)) bs) = chunks8 bs"
proof (induction bs rule: chunks8.induct)
  case (1 bs)
  show ?case
  proof (cases "length bs < 8")
    case True
    then show ?thesis by (simp add: chunks8_short)
  next
    case False
    then obtain n where n: "length bs = n + 8"
      by (metis le_add_diff_inverse2 not_less)
    then have d: "length bs div 8 = Suc (n div 8)" by simp
    have len: "length (drop 8 bs) = n" using n by simp
    have "take (8 * (length bs div 8)) bs = take 8 bs @ take (8 * (n div 8)) (drop 8 bs)"
      using d by (simp add: take_add [symmetric])
    moreover have "length (take 8 bs) = 8" using n by simp
    ultimately have "chunks8 (take (8 * (length bs div 8)) bs)
        = take 8 bs # chunks8 (take (8 * (n div 8)) (drop 8 bs))"
      using chunks8_groups [of "[take 8 bs]" "take (8 * (n div 8)) (drop 8 bs)"] by simp
    also have "chunks8 (take (8 * (n div 8)) (drop 8 bs)) = chunks8 (drop 8 bs)"
      using "1.IH" [OF False] len by simp
    finally show ?thesis using False by (simp add: chunks8_long)
  qed
qed

lemma length_chunks8: "length (chunks8 bs) = length bs div 8"
proof (induction bs rule: chunks8.induct)
  case (1 bs)
  show ?case
  proof (cases "length bs < 8")
    case True
    then show ?thesis by (simp add: chunks8_short)
  next
    case False
    then obtain n where n: "length bs = n + 8"
      by (metis le_add_diff_inverse2 not_less)
    with 1 False show ?thesis by (simp add: chunks8_long)
  qed
qed

subsection \<open>The scan\<close>

lemma scan_no_match:
  "(\<And>k. 0 < k \<Longrightarrow> k \<le> length cs \<Longrightarrow> \<not> suffix delimiter (message @ take k cs))
     \<Longrightarrow> scan cs message = None"
proof (induction cs arbitrary: message)
  case Nil
  show ?case by simp
next
  case (Cons c cs)
  have first: "\<not> suffix delimiter (message @ [c])"
    using Cons.prems [of 1] by simp
  have "scan cs (message @ [c]) = None"
  proof (rule Cons.IH)
    fix k
    assume "0 < k" "k \<le> length cs"
    then show "\<not> suffix delimiter ((message @ [c]) @ take k cs)"
      using Cons.prems [of "Suc k"] by simp
  qed
  with first show ?case by (simp del: suffix_snoc)
qed

lemma scan_first_match:
  "cs \<noteq> [] \<Longrightarrow> suffix delimiter (message @ cs)
     \<Longrightarrow> (\<And>k. 0 < k \<Longrightarrow> k < length cs \<Longrightarrow> \<not> suffix delimiter (message @ take k cs))
     \<Longrightarrow> scan (cs @ rest) message = Some (replace_empty delimiter (message @ cs))"
proof (induction cs arbitrary: message)
  case Nil
  then show ?case by simp
next
  case (Cons c cs)
  show ?case
  proof (cases "cs = []")
    case True
    with Cons.prems(2) show ?thesis by (simp del: suffix_snoc)
  next
    case False
    have first: "\<not> suffix delimiter (message @ [c])"
      using Cons.prems(3) [of 1] False by simp
    have "scan (cs @ rest) (message @ [c])
            = Some (replace_empty delimiter ((message @ [c]) @ cs))"
    proof (rule Cons.IH [OF False])
      show "suffix delimiter ((message @ [c]) @ cs)"
        using Cons.prems(2) by simp
    next
      fix k
      assume "0 < k" "k < length cs"
      then show "\<not> suffix delimiter ((message @ [c]) @ take k cs)"
        using Cons.prems(3) [of "Suc k"] by simp
    qed
    with first show ?thesis by (simp del: suffix_snoc)
  qed
qed

subsection \<open>Removing the delimiter from a framed message\<close>

lemma delimiter_nonempty: "delimiter \<noteq> []"
  by (simp add: delimiter_eq)

lemma replace_empty_Nil: "replace_empty old [] = []"
  by (simp add: replace_empty.simps [of old "[]"])

lemma replace_empty_self: "old \<noteq> [] \<Longrightarrow> replace_empty old old = []"
  by (simp add: replace_empty.simps [of old old] replace_empty_Nil)

lemma replace_empty_Cons:
  "old \<noteq> [] \<Longrightarrow> \<not> prefix old (c # s) \<Longrightarrow> replace_empty old (c # s) = c # replace_empty old s"
  by (simp add: replace_empty.simps [of old "c # s"])

lemma delimiter_only_at_end_Cons:
  "delimiter_only_at_end (c # m) \<Longrightarrow> delimiter_only_at_end m"
proof -
  assume a: "delimiter_only_at_end (c # m)"
  show "delimiter_only_at_end m"
    unfolding delimiter_only_at_end_def
  proof (intro allI impI)
    fix k
    assume "k < length m"
    then have "Suc k < length (c # m)" by simp
    with a have "\<not> prefix delimiter (drop (Suc k) ((c # m) @ delimiter))"
      unfolding delimiter_only_at_end_def by blast
    then show "\<not> prefix delimiter (drop k (m @ delimiter))" by simp
  qed
qed

lemma replace_empty_framed:
  "delimiter_only_at_end m \<Longrightarrow> replace_empty delimiter (m @ delimiter) = m"
proof (induction m)
  case Nil
  show ?case by (simp add: replace_empty_self delimiter_nonempty)
next
  case (Cons c m)
  have "0 < length (c # m)" by simp
  with Cons.prems have "\<not> prefix delimiter (drop 0 ((c # m) @ delimiter))"
    unfolding delimiter_only_at_end_def by blast
  then have "\<not> prefix delimiter (c # (m @ delimiter))" by simp
  then have "replace_empty delimiter (c # (m @ delimiter))
               = c # replace_empty delimiter (m @ delimiter)"
    using delimiter_nonempty by (simp add: replace_empty_Cons)
  moreover have "replace_empty delimiter (m @ delimiter) = m"
    by (rule Cons.IH) (rule delimiter_only_at_end_Cons [OF Cons.prems])
  ultimately show ?case by simp
qed

lemma framed_first_match:
  assumes only: "delimiter_only_at_end m"
    and k: "k < length (m @ delimiter)"
  shows "\<not> suffix delimiter (take k (m @ delimiter))"
proof
  assume "suffix delimiter (take k (m @ delimiter))"
  then obtain zs where zs: "take k (m @ delimiter) = zs @ delimiter"
    by (auto simp add: suffix_def)
  then have "length (take k (m @ delimiter)) = length zs + length delimiter" by simp
  with k have len: "k = length zs + 9" by (simp add: length_delimiter)
  with k have short: "length zs < length m" by (simp add: length_delimiter)
  have "m @ delimiter = (zs @ delimiter) @ drop k (m @ delimiter)"
    using zs by (metis append_take_drop_id)
  then have "drop (length zs) (m @ delimiter) = delimiter @ drop k (m @ delimiter)"
    by (metis append.assoc append_eq_conv_conj)
  then have "prefix delimiter (drop (length zs) (m @ delimiter))"
    by simp
  with only short show False
    unfolding delimiter_only_at_end_def by blast
qed

lemma scan_framed:
  assumes "delimiter_only_at_end m"
  shows "scan ((m @ delimiter) @ rest) [] = Some m"
proof -
  have "scan ((m @ delimiter) @ rest) [] = Some (replace_empty delimiter ([] @ m @ delimiter))"
  proof (rule scan_first_match)
    show "m @ delimiter \<noteq> []" by (simp add: delimiter_nonempty)
    show "suffix delimiter ([] @ m @ delimiter)" by (simp add: suffix_def)
  next
    fix k
    assume "0 < k" "k < length (m @ delimiter)"
    then show "\<not> suffix delimiter ([] @ take k (m @ delimiter))"
      using framed_first_match [OF assms, of k] by simp
  qed
  then show ?thesis by (simp add: replace_empty_framed [OF assms])
qed

subsection \<open>What a successful encoding returns and carries\<close>

lemma encode_lsb_eq:
  "encode_lsb pixels message =
     (if 3 * length pixels < length (binary_message (message @ delimiter))
      then Inl (CapacityExceeded (3 * length pixels div 8))
      else Inr (embed_bits (binary_message (message @ delimiter)) 0 pixels))"
proof -
  have "length pixels * 3 = 3 * length pixels" by simp
  then show ?thesis
    unfolding encode_lsb_def Let_def encode_loop_embed by (simp only:)
qed

lemma encode_lsb_Inr:
  "encode_lsb pixels message = Inr out \<longleftrightarrow>
     length (binary_message (message @ delimiter)) \<le> 3 * length pixels
     \<and> out = embed_bits (binary_message (message @ delimiter)) 0 pixels"
  unfolding encode_lsb_eq by auto

lemma encode_lsb_Inl:
  "encode_lsb pixels message = Inl e \<longleftrightarrow>
     3 * length pixels < length (binary_message (message @ delimiter))
     \<and> e = CapacityExceeded (3 * length pixels div 8)"
  unfolding encode_lsb_eq by auto

lemma length_framed:
  "single_byte message \<Longrightarrow> length (binary_message (message @ delimiter)) = 8 * (length message + 9)"
proof -
  assume "single_byte message"
  then have "single_byte (message @ delimiter)"
    using delimiter_bytes by (auto simp add: single_byte_def)
  then show ?thesis by (simp add: length_binary_message length_delimiter)
qed

lemma lsb_chars_encoded:
  assumes enc: "encode_lsb pixels message = Inr out"
    and bytes: "single_byte message"
  shows "\<exists>rest. lsb_chars out = (message @ delimiter) @ rest"
proof -
  let ?bm = "binary_message (message @ delimiter)"
  from enc have fits: "length ?bm \<le> 3 * length pixels" and out: "out = embed_bits ?bm 0 pixels"
    by (simp_all add: encode_lsb_Inr)
  have "extract_bits out = ?bm @ drop (length ?bm) (extract_bits pixels)"
    unfolding out using fits binary_message_digits by (rule extract_bits_embed_bits)
  moreover have "single_byte (message @ delimiter)"
    using bytes delimiter_bytes by (auto simp add: single_byte_def)
  ultimately have "lsb_chars out = (message @ delimiter)
      @ map bin_value (chunks8 (drop (length ?bm) (extract_bits pixels)))"
    by (simp add: lsb_chars_def chunks8_binary_message)
  then show ?thesis by blast
qed

subsection \<open>Channels of an encoded pixel list; digits of a framed message\<close>

lemma channel_encoded:
  assumes "encode_lsb pixels message = Inr out" and "i < 3 * length pixels"
  shows "channel out i = embed_bit (binary_message (message @ delimiter)) i (channel pixels i)"
proof -
  let ?bm = "binary_message (message @ delimiter)"
  from assms(1) have out: "out = embed_bits ?bm 0 pixels"
    by (simp add: encode_lsb_Inr)
  have "channel out i = channels out ! i"
    using assms(2) by (simp add: out channels_nth length_embed_bits)
  also have "\<dots> = embed_bit ?bm i (channels pixels ! i)"
    unfolding out using assms(2) by (rule channels_embed_nth)
  also have "channels pixels ! i = channel pixels i"
    using assms(2) by (rule channels_nth)
  finally show ?thesis .
qed

lemma less_two_power_length_bin_digits: "n < 2 ^ length (bin_digits n)"
  using bin_value_less [of "bin_digits n"] by (simp add: bin_value_bin_digits)

lemma bin_digits_nth:
  "j < length (bin_digits n) \<Longrightarrow>
     bin_digits n ! j
       = (if odd (n div 2 ^ (length (bin_digits n) - Suc j)) then CHR ''1'' else CHR ''0'')"
proof (induction n arbitrary: j rule: bin_digits.induct)
  case (1 n)
  show ?case
  proof (cases "n < 2")
    case True
    then have "n = 0 \<or> n = 1" by auto
    with 1(2) True show ?thesis by (auto simp add: bin_digits.simps [of n])
  next
    case False
    let ?ds = "bin_digits (n div 2)"
    have unfold: "bin_digits n = ?ds @ [if n mod 2 = 0 then CHR ''0'' else CHR ''1'']"
      using False by (simp add: bin_digits.simps [of n])
    then have len: "length (bin_digits n) = Suc (length ?ds)" by simp
    show ?thesis
    proof (cases "j < length ?ds")
      case True
      then have "bin_digits n ! j = ?ds ! j"
        by (simp add: unfold nth_append)
      also have "\<dots> = (if odd (n div 2 div 2 ^ (length ?ds - Suc j)) then CHR ''1'' else CHR ''0'')"
        using "1.IH" [OF False True] .
      also have "n div 2 div 2 ^ (length ?ds - Suc j) = n div 2 ^ Suc (length ?ds - Suc j)"
        by (simp add: div_mult2_eq)
      also have "Suc (length ?ds - Suc j) = length (bin_digits n) - Suc j"
        using True len by simp
      finally show ?thesis .
    next
      case False
      with 1(2) len have j: "j = length ?ds" by simp
      then have "bin_digits n ! j = (if n mod 2 = 0 then CHR ''0'' else CHR ''1'')"
        by (simp add: unfold)
      moreover have "length (bin_digits n) - Suc j = 0" using j len by simp
      ultimately show ?thesis by (simp add: odd_iff_mod_2_eq_one)
    qed
  qed
qed

lemma format_08b_nth:
  assumes n: "n \<le> 255" and j: "j < 8"
  shows "format_08b n ! j = (if bit n (7 - j) then CHR ''1'' else CHR ''0'')"
proof -
  let ?L = "length (bin_digits n)"
  from n have "n < 2 ^ 8" by simp
  then have L: "?L \<le> 8" by (rule length_bin_digits_le) simp
  show ?thesis
  proof (cases "j < 8 - ?L")
    case True
    then have "format_08b n ! j = CHR ''0''"
      by (simp add: format_08b_def nth_append)
    moreover have "\<not> bit n (7 - j)"
    proof -
      from True have "?L \<le> 7 - j" by simp
      then have "(2 :: nat) ^ ?L \<le> 2 ^ (7 - j)" by (simp add: power_increasing)
      with less_two_power_length_bin_digits [of n] have "n < 2 ^ (7 - j)"
        by (rule less_le_trans)
      then show ?thesis by (simp add: bit_iff_odd)
    qed
    ultimately show ?thesis by simp
  next
    case False
    then have idx: "j - (8 - ?L) < ?L" using j L by simp
    from False have "format_08b n ! j = bin_digits n ! (j - (8 - ?L))"
      by (simp add: format_08b_def nth_append)
    also have "\<dots> = (if odd (n div 2 ^ (?L - Suc (j - (8 - ?L)))) then CHR ''1'' else CHR ''0'')"
      using idx by (rule bin_digits_nth)
    also have "?L - Suc (j - (8 - ?L)) = 7 - j"
      using False j L by simp
    finally show ?thesis by (simp add: bit_iff_odd)
  qed
qed

lemma binary_message_nth:
  "single_byte m \<Longrightarrow> i < 8 * length m
     \<Longrightarrow> binary_message m ! i = format_08b (m ! (i div 8)) ! (i mod 8)"
proof (induction m arbitrary: i)
  case Nil
  then show ?case by simp
next
  case (Cons c m)
  from Cons.prems(1) have c: "length (format_08b c) = 8" and m: "single_byte m"
    by (simp_all add: single_byte_def length_format_08b)
  have unfold: "binary_message (c # m) = format_08b c @ binary_message m"
    by (simp add: binary_message_def)
  show ?case
  proof (cases "i < 8")
    case True
    then show ?thesis by (simp add: unfold nth_append c)
  next
    case False
    then obtain j where j: "i = j + 8" by (metis le_add_diff_inverse2 not_less)
    with Cons.prems(2) have "j < 8 * length m" by simp
    then have "binary_message m ! j = format_08b (m ! (j div 8)) ! (j mod 8)"
      using m by (intro Cons.IH)
    moreover have "(j + 8) div 8 = Suc (j div 8)" "(j + 8) mod 8 = j mod 8" by simp_all
    ultimately show ?thesis by (simp add: j unfold nth_append c)
  qed
qed

lemma framed_digit:
  assumes "single_byte message" and "i < length (binary_message (message @ delimiter))"
  shows "binary_message (message @ delimiter) ! i
           = (if bit ((message @ delimiter) ! (i div 8)) (7 - i mod 8) then CHR ''1'' else CHR ''0'')"
proof -
  let ?m = "message @ delimiter"
  have bytes: "single_byte ?m"
    using assms(1) delimiter_bytes by (auto simp add: single_byte_def)
  then have len: "length (binary_message ?m) = 8 * length ?m"
    by (rule length_binary_message)
  with assms(2) have i: "i < 8 * length ?m" by simp
  then have "i div 8 < length ?m" by simp
  then have "?m ! (i div 8) \<le> 255"
    using bytes unfolding single_byte_def by (meson nth_mem)
  moreover have "i mod 8 < 8" by simp
  ultimately have "format_08b (?m ! (i div 8)) ! (i mod 8)
      = (if bit (?m ! (i div 8)) (7 - i mod 8) then CHR ''1'' else CHR ''0'')"
    by (rule format_08b_nth)
  with binary_message_nth [OF bytes i] show ?thesis by simp
qed

subsection \<open>Character streams without a delimiter\<close>

lemma suffix_delimiter_length: "suffix delimiter cs \<Longrightarrow> 9 \<le> length cs"
  using suffix_length_le [of delimiter cs] by (simp add: length_delimiter)

lemma set_chunks8: "g \<in> set (chunks8 bs) \<Longrightarrow> set g \<subseteq> set bs"
proof (induction bs rule: chunks8.induct)
  case (1 bs)
  show ?case
  proof (cases "length bs < 8")
    case True
    with 1(2) show ?thesis by (simp add: chunks8_short)
  next
    case False
    with 1(2) have "g = take 8 bs \<or> g \<in> set (chunks8 (drop 8 bs))"
      by (simp add: chunks8_long)
    then show ?thesis
    proof
      assume "g = take 8 bs"
      then show ?thesis by (simp add: set_take_subset)
    next
      assume "g \<in> set (chunks8 (drop 8 bs))"
      then have "set g \<subseteq> set (drop 8 bs)" using False by (intro "1.IH")
      then show ?thesis using set_drop_subset [of 8 bs] by blast
    qed
  qed
qed

lemma bin_value_all_zero: "set s \<subseteq> {CHR ''0''} \<Longrightarrow> bin_value s = 0"
proof (induction s rule: rev_induct)
  case Nil
  show ?case by (simp add: bin_value_Nil)
next
  case (snoc d s)
  then show ?case by (simp add: bin_value_append bin_value_single)
qed

lemma lsb_chars_all_zero:
  assumes "\<forall>i < 3 * length pixels. channel pixels i AND 1 = 0"
  shows "set (lsb_chars pixels) \<subseteq> {0}"
proof -
  have "set (extract_bits pixels) \<subseteq> {CHR ''0''}"
  proof
    fix d
    assume "d \<in> set (extract_bits pixels)"
    then obtain i where i: "i < 3 * length pixels" and d: "d = lsb_digit (channels pixels ! i)"
      by (auto simp add: extract_bits_eq in_set_conv_nth length_channels)
    from i have "channels pixels ! i = channel pixels i" by (rule channels_nth)
    with assms i d show "d \<in> {CHR ''0''}" by (simp add: lsb_digit_def)
  qed
  then have "\<And>g. g \<in> set (chunks8 (extract_bits pixels)) \<Longrightarrow> bin_value g = 0"
    using set_chunks8 bin_value_all_zero by blast
  then show ?thesis by (auto simp add: lsb_chars_def)
qed

lemma scan_without_delimiter:
  "(\<forall>k \<le> length cs. \<not> suffix delimiter (take k cs)) \<Longrightarrow> scan cs [] = None"
  by (rule scan_no_match) simp

subsection \<open>Decoding an encoded pixel list\<close>

lemma encode_lsb_projr:
  "length (binary_message (message @ delimiter)) \<le> 3 * length pixels
     \<Longrightarrow> encode_lsb pixels message = Inr (projr (encode_lsb pixels message))"
  by (simp add: encode_lsb_eq)

lemma decode_encoded:
  assumes enc: "encode_lsb pixels message = Inr out"
    and bytes: "single_byte message"
  shows "\<exists>rest. decode_lsb out = Inr (scan ((message @ delimiter) @ rest) [])"
  using lsb_chars_encoded [OF enc bytes] by (auto simp add: decode_lsb_scan)

lemma delimiter_only_at_end_Nil: "delimiter_only_at_end []"
  by (simp add: delimiter_only_at_end_def)

subsection \<open>Characters above 255 and concrete bitstreams\<close>

lemma length_binary_message_big:
  "\<not> single_byte m \<Longrightarrow> 8 * length m < length (binary_message m)"
proof (induction m)
  case Nil
  then show ?case by (simp add: single_byte_def)
next
  case (Cons c m)
  have unfold: "length (binary_message (c # m)) = length (format_08b c) + length (binary_message m)"
    by (simp add: binary_message_def)
  show ?case
  proof (cases "255 < c")
    case True
    then have "8 < length (format_08b c)" by (rule length_format_08b_big)
    with length_binary_message_ge [of m] unfold show ?thesis by simp
  next
    case False
    with Cons.prems have "\<not> single_byte m" by (simp add: single_byte_def)
    then have "8 * length m < length (binary_message m)" by (rule Cons.IH)
    with length_format_08b_ge [of c] unfold show ?thesis by simp
  qed
qed

lemma length_framed_big:
  assumes "\<not> single_byte message"
  shows "8 * (length message + 9) < length (binary_message (message @ delimiter))"
proof -
  have "length (binary_message delimiter) = 72"
    using length_binary_message [OF delimiter_bytes] by (simp add: length_delimiter)
  with length_binary_message_big [OF assms] show ?thesis
    by (simp add: binary_message_append)
qed

lemma bin_digits_256: "bin_digits 256 = ''100000000''"
  by (simp add: bin_digits.simps)

lemma format_08b_H: "format_08b 72 = ''01001000''"
  by (simp add: format_08b_def bin_digits.simps)

lemma format_08b_I: "format_08b 73 = ''01001001''"
  by (simp add: format_08b_def bin_digits.simps)

lemma decode_encoded_framed:
  assumes enc: "encode_lsb pixels message = Inr out"
    and bytes: "single_byte message"
    and only: "delimiter_only_at_end message"
  shows "decode_lsb out = Inr (Some message)"
proof -
  from decode_encoded [OF enc bytes] obtain rest
    where "decode_lsb out = Inr (scan ((message @ delimiter) @ rest) [])" ..
  also have "scan ((message @ delimiter) @ rest) [] = Some message"
    using only by (rule scan_framed)
  finally show ?thesis .
qed

lemma extract_bits_encoded:
  assumes "encode_lsb pixels message = Inr out"
  shows "extract_bits out = binary_message (message @ delimiter)
           @ drop (length (binary_message (message @ delimiter))) (extract_bits pixels)"
proof -
  let ?bm = "binary_message (message @ delimiter)"
  from assms have fits: "length ?bm \<le> 3 * length pixels" and out: "out = embed_bits ?bm 0 pixels"
    by (simp_all add: encode_lsb_Inr)
  show ?thesis
    unfolding out using fits binary_message_digits by (rule extract_bits_embed_bits)
qed

lemma extract_bits_zero_pixels:
  "extract_bits (replicate n (0, 0, 0)) = replicate (3 * n) CHR ''0''"
proof (induction n)
  case 0
  show ?case by (simp add: extract_bits_eq channels_def)
next
  case (Suc n)
  then have "map lsb_digit (channels (replicate n (0, 0, 0))) = replicate (3 * n) CHR ''0''"
    by (simp add: extract_bits_eq)
  moreover have "replicate (3 * Suc n) CHR ''0''
      = CHR ''0'' # CHR ''0'' # CHR ''0'' # replicate (3 * n) CHR ''0''"
    by (simp add: replicate_add numeral_3_eq_3)
  ultimately show ?case
    by (simp only: extract_bits_eq replicate_Suc channels_Cons list.map lsb_digit_def)
      simp
qed

lemma py_str_HI: "py_str ''HI'' = [72, 73]"
  by (simp add: py_str_def)

lemma delimiter_only_at_end_HI: "delimiter_only_at_end [72, 73]"
  unfolding delimiter_only_at_end_def
proof (intro allI impI)
  fix k :: nat
  assume "k < length [72, 73 :: nat]"
  then have "k = 0 \<or> k = 1" by auto
  then show "\<not> prefix delimiter (drop k ([72, 73] @ delimiter))"
    by (auto simp add: delimiter_eq)
qed

subsection \<open>A delimiter that starts inside the message\<close>

lemma replace_empty_prefix:
  "old \<noteq> [] \<Longrightarrow> prefix old s
     \<Longrightarrow> replace_empty old s = replace_empty old (drop (length old) s)"
  by (cases "s = []") (simp_all add: replace_empty.simps [of old s])

lemma length_replace_empty: "length (replace_empty old s) \<le> length s"
proof (induction old s rule: replace_empty.induct)
  case (1 old s)
  show ?case
  proof (cases "old = [] \<or> s = []")
    case True
    then show ?thesis by (simp add: replace_empty.simps [of old s])
  next
    case False
    then obtain c s' where cs: "s = c # s'" by (cases s) auto
    show ?thesis
    proof (cases "prefix old s")
      case True
      with False "1.IH"(1) have "length (replace_empty old (drop (length old) s)) \<le> length s"
        by fastforce
      with False True show ?thesis by (simp add: replace_empty_prefix)
    next
      case np: False
      with False "1.IH"(2) have "length (replace_empty old (tl s)) \<le> length (tl s)"
        by blast
      with False np show ?thesis by (simp add: cs replace_empty_Cons)
    qed
  qed
qed

lemma replace_empty_shrinks:
  "old \<noteq> [] \<Longrightarrow> sublist old s \<Longrightarrow> length (replace_empty old s) + length old \<le> length s"
proof (induction old s rule: replace_empty.induct)
  case (1 old s)
  from "1.prems" have s: "s \<noteq> []" by auto
  show ?case
  proof (cases "prefix old s")
    case True
    then have "length old \<le> length s" by (rule prefix_length_le)
    moreover have "length (replace_empty old (drop (length old) s)) \<le> length s - length old"
      using length_replace_empty [of old "drop (length old) s"] by simp
    ultimately show ?thesis
      using True "1.prems"(1) by (simp add: replace_empty_prefix)
  next
    case False
    obtain c s' where cs: "s = c # s'" using s by (cases s) auto
    with "1.prems"(2) False have "sublist old s'"
      by (simp add: sublist_Cons_right)
    then have "length (replace_empty old (tl s)) + length old \<le> length (tl s)"
      using "1.IH"(2) "1.prems"(1) s False cs by simp
    with False "1.prems"(1) show ?thesis
      by (simp add: cs replace_empty_Cons)
  qed
qed

lemma scan_first_occurrence:
  assumes occ: "prefix delimiter (drop k cs)"
    and first: "\<And>j. j < k \<Longrightarrow> \<not> prefix delimiter (drop j cs)"
  shows "\<exists>r. scan (cs @ rest) [] = Some r \<and> length r \<le> k"
proof -
  from occ obtain zs where zs: "drop k cs = delimiter @ zs"
    by (auto simp add: prefix_def)
  then have "take 9 (drop k cs) = delimiter"
    by (simp add: length_delimiter)
  then have piece: "take (k + 9) cs = take k cs @ delimiter"
    by (simp add: take_add)
  from zs have "length (drop k cs) = 9 + length zs"
    by (simp add: length_delimiter)
  then have klen: "length (take (k + 9) cs) = k + 9"
    by simp
  have "scan (take (k + 9) cs @ (drop (k + 9) cs @ rest)) []
          = Some (replace_empty delimiter ([] @ take (k + 9) cs))"
  proof (rule scan_first_match)
    show "take (k + 9) cs \<noteq> []" using klen by auto
    show "suffix delimiter ([] @ take (k + 9) cs)"
      by (simp add: piece suffix_def)
  next
    fix j
    assume j: "0 < j" "j < length (take (k + 9) cs)"
    show "\<not> suffix delimiter ([] @ take j (take (k + 9) cs))"
    proof
      assume "suffix delimiter ([] @ take j (take (k + 9) cs))"
      with j klen have "suffix delimiter (take j cs)" by (simp add: min_def)
      then obtain ys where ys: "take j cs = ys @ delimiter"
        by (auto simp add: suffix_def)
      then have "length (take j cs) = length ys + 9"
        by (simp add: length_delimiter)
      with j klen have jl: "j = length ys + 9" by simp
      have "cs = (ys @ delimiter) @ drop j cs"
        using ys by (metis append_take_drop_id)
      then have "drop (length ys) cs = delimiter @ drop j cs"
        by (metis append.assoc append_eq_conv_conj)
      then have "prefix delimiter (drop (length ys) cs)" by simp
      moreover from jl j klen have "length ys < k" by simp
      ultimately show False using first by blast
    qed
  qed
  moreover have "take (k + 9) cs @ (drop (k + 9) cs @ rest) = cs @ rest"
    by simp
  ultimately have "scan (cs @ rest) [] = Some (replace_empty delimiter (take (k + 9) cs))"
    by (simp only: append_Nil)
  moreover have "length (replace_empty delimiter (take (k + 9) cs)) + 9 \<le> k + 9"
    using replace_empty_shrinks [of delimiter "take (k + 9) cs"] klen
    by (simp add: piece delimiter_nonempty length_delimiter)
  ultimately show ?thesis by simp
qed

lemma scan_early_match:
  assumes broken: "\<not> delimiter_only_at_end m"
  shows "\<exists>r. scan ((m @ delimiter) @ rest) [] = Some r \<and> length r < length m"
proof -
  define k where "k = (LEAST k. k < length m \<and> prefix delimiter (drop k (m @ delimiter)))"
  from broken have "\<exists>k. k < length m \<and> prefix delimiter (drop k (m @ delimiter))"
    by (auto simp add: delimiter_only_at_end_def)
  then have k: "k < length m \<and> prefix delimiter (drop k (m @ delimiter))"
    unfolding k_def by (rule LeastI_ex)
  have first: "\<not> prefix delimiter (drop j (m @ delimiter))" if "j < k" for j
  proof
    assume "prefix delimiter (drop j (m @ delimiter))"
    moreover from that k have "j < length m" by simp
    ultimately have "k \<le> j" unfolding k_def by (simp add: Least_le)
    with that show False by simp
  qed
  from k have occ: "prefix delimiter (drop k (m @ delimiter))" ..
  from scan_first_occurrence [OF occ first, of rest] obtain r
    where "scan ((m @ delimiter) @ rest) [] = Some r" and "length r \<le> k"
    by blast
  with k show ?thesis by auto
qed

text \<open>The side condition of the round trip cannot be dropped: when an occurrence of the
  delimiter starts inside the message, the decoder stops at the first one and returns a
  shorter text.\<close>

lemma decode_encoded_broken:
  assumes enc: "encode_lsb pixels message = Inr out"
    and bytes: "single_byte message"
    and broken: "\<not> delimiter_only_at_end message"
  shows "decode_lsb out \<noteq> Inr (Some message)"
proof -
  from decode_encoded [OF enc bytes] obtain rest
    where dec: "decode_lsb out = Inr (scan ((message @ delimiter) @ rest) [])" ..
  from scan_early_match [OF broken, of rest] obtain r
    where "scan ((message @ delimiter) @ rest) [] = Some r" and "length r < length message"
    by blast
  with dec show ?thesis by auto
qed

section \<open>The claims\<close>

text \<open>
  C2, capacity boundary: a message whose framed bitstream has exactly
  \<open>3 \<times> len(P)\<close> bits is encoded; one with \<open>3 \<times> len(P) + 1\<close> bits or more fails with
  \<open>CapacityExceeded\<close>, which reports \<open>(3 \<times> len(P)) div 8\<close> as the maximum number of
  characters.
\<close>

theorem capacity_boundary:
  "(length (binary_message (message @ delimiter)) = 3 * length pixels
      \<longrightarrow> (\<exists>out. encode_lsb pixels message = Inr out))
   \<and> (3 * length pixels + 1 \<le> length (binary_message (message @ delimiter))
      \<longrightarrow> encode_lsb pixels message = Inl (CapacityExceeded (3 * length pixels div 8)))"
  by (simp add: encode_lsb_eq)

theorem capacity_boundary_witness:
  "length (binary_message ([] @ delimiter)) = 3 * length (replicate 24 (0 :: int, 0 :: int, 0 :: int))
   \<and> (\<exists>out. encode_lsb (replicate 24 (0, 0, 0)) [] = Inr out)
   \<and> 3 * length (replicate 23 (0 :: int, 0 :: int, 0 :: int)) + 1
         \<le> length (binary_message ([] @ delimiter))
   \<and> encode_lsb (replicate 23 (0, 0, 0)) [] = Inl (CapacityExceeded 8)"
proof -
  have len: "length (binary_message ([] @ delimiter)) = 72"
    using length_framed [of "[]"] by (simp add: single_byte_def)
  show ?thesis
    using capacity_boundary [where message = "[]" and pixels = "replicate 24 (0, 0, 0)"]
      capacity_boundary [where message = "[]" and pixels = "replicate 23 (0, 0, 0)"] len
    by simp
qed

text \<open>
  C9: for a message of single-byte characters, encoding succeeds exactly when
  \<open>8 \<times> (len(M) + 9) \<le> 3 \<times> len(P)\<close>, the 9 characters of the delimiter being framed with
  the message; so a message of exactly the reported maximum \<open>(3 \<times> len(P)) div 8\<close> characters
  fails with \<open>CapacityExceeded\<close>, for every non-empty pixel sequence.
\<close>

theorem encode_succeeds_iff:
  "(single_byte message \<longrightarrow>
      ((\<exists>out. encode_lsb pixels message = Inr out)
         \<longleftrightarrow> 8 * (length message + 9) \<le> 3 * length pixels))
   \<and> (pixels \<noteq> [] \<and> length message = 3 * length pixels div 8
        \<longrightarrow> encode_lsb pixels message = Inl (CapacityExceeded (3 * length pixels div 8)))"
proof (intro conjI impI)
  assume "single_byte message"
  then show "(\<exists>out. encode_lsb pixels message = Inr out)
               \<longleftrightarrow> 8 * (length message + 9) \<le> 3 * length pixels"
    by (simp add: encode_lsb_Inr length_framed)
next
  assume a: "pixels \<noteq> [] \<and> length message = 3 * length pixels div 8"
  have "8 * length (message @ delimiter) \<le> length (binary_message (message @ delimiter))"
    by (rule length_binary_message_ge)
  moreover have "3 * length pixels < 8 * (3 * length pixels div 8) + 72"
    by presburger
  ultimately have "3 * length pixels < length (binary_message (message @ delimiter))"
    using a by (simp add: length_delimiter)
  then show "encode_lsb pixels message = Inl (CapacityExceeded (3 * length pixels div 8))"
    by (simp add: encode_lsb_eq)
qed

theorem encode_succeeds_iff_witness:
  "single_byte [72, 73]
   \<and> (\<exists>out. encode_lsb (replicate 30 (0, 0, 0)) [72, 73] = Inr out)
   \<and> 8 * (length [72, 73 :: nat] + 9) \<le> 3 * length (replicate 30 (0 :: int, 0 :: int, 0 :: int))
   \<and> replicate 8 (0 :: int, 0 :: int, 0 :: int) \<noteq> []
   \<and> length [65, 66, 67 :: nat] = 3 * length (replicate 8 (0 :: int, 0 :: int, 0 :: int)) div 8
   \<and> encode_lsb (replicate 8 (0, 0, 0)) [65, 66, 67] = Inl (CapacityExceeded 3)"
proof -
  have b: "single_byte [72, 73]" by (simp add: single_byte_def)
  show ?thesis
    using encode_succeeds_iff [where message = "[72, 73]" and pixels = "replicate 30 (0, 0, 0)"]
      encode_succeeds_iff [where message = "[65, 66, 67]" and pixels = "replicate 8 (0, 0, 0)"] b
    by simp
qed

text \<open>
  C7, decode is total and safe: on every pixel sequence (a permutation of an encoded one
  included) the decoder's loop ends, no conversion of a group of bits or of a character code
  raises, and the result is a string or the not-found value.
\<close>

theorem decode_lsb_total:
  "decode_lsb pixels = Inr None \<or> (\<exists>s. decode_lsb pixels = Inr (Some s))"
  by (cases "scan (lsb_chars pixels) []") (simp_all add: decode_lsb_scan)

text \<open>
  C3, bit placement: after a successful encoding, bit \<open>i\<close> of the framed bitstream is in
  channel \<open>i mod 3\<close> (0 red, 1 green, 2 blue) of pixel \<open>i div 3\<close> of the output: that channel
  is the input channel with its least significant bit replaced by the bit, the seven bits
  above it unchanged. For single-byte characters the bitstream holds 8 bits per character,
  most significant bit first, in message order.
\<close>

theorem bit_placement:
  assumes "encode_lsb pixels message = Inr out"
    and "i < length (binary_message (message @ delimiter))"
  shows "i div 3 < length out
    \<and> component (out ! (i div 3)) (i mod 3)
        = (component (pixels ! (i div 3)) (i mod 3) AND 0xFE)
            OR int_of_digit (binary_message (message @ delimiter) ! i)
    \<and> component (out ! (i div 3)) (i mod 3) AND 1
        = int_of_digit (binary_message (message @ delimiter) ! i)
    \<and> component (out ! (i div 3)) (i mod 3) AND 0xFE
        = component (pixels ! (i div 3)) (i mod 3) AND 0xFE
    \<and> (single_byte message \<longrightarrow>
          binary_message (message @ delimiter) ! i
            = (if bit ((message @ delimiter) ! (i div 8)) (7 - i mod 8)
               then CHR ''1'' else CHR ''0''))"
proof -
  let ?bm = "binary_message (message @ delimiter)"
  from assms(1) have fits: "length ?bm \<le> 3 * length pixels"
    and out: "out = embed_bits ?bm 0 pixels"
    by (simp_all add: encode_lsb_Inr)
  from fits assms(2) have i: "i < 3 * length pixels" by simp
  then have pos: "i div 3 < length out"
    by (simp add: out length_embed_bits)
  have "channel out i = embed_bit ?bm i (channel pixels i)"
    using assms(1) i by (rule channel_encoded)
  then have eq: "component (out ! (i div 3)) (i mod 3)
      = (component (pixels ! (i div 3)) (i mod 3) AND 0xFE) OR int_of_digit (?bm ! i)"
    using assms(2) by (simp add: channel_def embed_bit_def)
  have digit: "single_byte message \<longrightarrow>
      ?bm ! i = (if bit ((message @ delimiter) ! (i div 8)) (7 - i mod 8)
                 then CHR ''1'' else CHR ''0'')"
    using assms(2) by (simp add: framed_digit)
  from pos eq digit show ?thesis
    by (simp only: lsb_embedded high_bits_embedded simp_thms)
qed

theorem bit_placement_witness:
  "encode_lsb (replicate 30 (0, 0, 0)) [72, 73]
      = Inr (projr (encode_lsb (replicate 30 (0, 0, 0)) [72, 73]))
   \<and> 1 < length (binary_message ([72, 73] @ delimiter))
   \<and> single_byte [72, 73]
   \<and> component (projr (encode_lsb (replicate 30 (0, 0, 0)) [72, 73]) ! 0) 1 = 1
   \<and> binary_message ([72, 73] @ delimiter) ! 1 = CHR ''1''"
proof -
  have b: "single_byte [72, 73]" by (simp add: single_byte_def)
  have len: "length (binary_message ([72, 73] @ delimiter)) = 88"
    using length_framed [OF b] by simp
  then have h2: "1 < length (binary_message ([72, 73] @ delimiter))" by simp
  have "\<exists>out. encode_lsb (replicate 30 (0, 0, 0)) [72, 73] = Inr out"
    unfolding encode_lsb_Inr len by simp
  then have h1: "encode_lsb (replicate 30 (0, 0, 0)) [72, 73]
      = Inr (projr (encode_lsb (replicate 30 (0, 0, 0)) [72, 73]))"
    by auto
  have bit: "bit (72 :: nat) 6" by (simp add: bit_iff_odd)
  show ?thesis
    using bit_placement [OF h1 h2] h1 h2 b bit
    by (simp add: component_def int_of_digit_def)
qed

text \<open>
  C4, frame property: a successful encoding returns as many pixels as it was given, in the
  same order; every output channel agrees with the input channel at its position on the
  seven high-order bits (\<open>AND 0xFE\<close>), and every channel beyond the end of the framed
  bitstream is unchanged.
\<close>

theorem encode_frame:
  assumes "encode_lsb pixels message = Inr out"
  shows "length out = length pixels
    \<and> (\<forall>i < 3 * length pixels. channel out i AND 0xFE = channel pixels i AND 0xFE)
    \<and> (\<forall>i. length (binary_message (message @ delimiter)) \<le> i \<and> i < 3 * length pixels
          \<longrightarrow> channel out i = channel pixels i)"
proof (intro conjI allI impI)
  show "length out = length pixels"
    using assms by (simp add: encode_lsb_Inr length_embed_bits)
next
  fix i
  assume "i < 3 * length pixels"
  with assms
  have "channel out i = embed_bit (binary_message (message @ delimiter)) i (channel pixels i)"
    by (rule channel_encoded)
  then show "channel out i AND 0xFE = channel pixels i AND 0xFE"
    by (simp add: embed_bit_def high_bits_embedded)
next
  fix i
  assume a: "length (binary_message (message @ delimiter)) \<le> i \<and> i < 3 * length pixels"
  with assms
  have "channel out i = embed_bit (binary_message (message @ delimiter)) i (channel pixels i)"
    by (intro channel_encoded) simp_all
  with a show "channel out i = channel pixels i"
    by (simp add: embed_bit_def)
qed

theorem encode_frame_witness:
  "encode_lsb (replicate 25 (255, 128, 7)) []
      = Inr (projr (encode_lsb (replicate 25 (255, 128, 7)) []))
   \<and> length (projr (encode_lsb (replicate 25 (255, 128, 7)) [])) = 25
   \<and> channel (projr (encode_lsb (replicate 25 (255, 128, 7)) [])) 5 AND 0xFE = 6
   \<and> channel (projr (encode_lsb (replicate 25 (255, 128, 7)) [])) 73 = 128"
proof -
  have len: "length (binary_message ([] @ delimiter)) = 72"
    using length_framed [of "[]"] by (simp add: single_byte_def)
  have "\<exists>out. encode_lsb (replicate 25 (255, 128, 7)) [] = Inr out"
    unfolding encode_lsb_Inr len by simp
  then have h: "encode_lsb (replicate 25 (255, 128, 7)) []
      = Inr (projr (encode_lsb (replicate 25 (255, 128, 7)) []))"
    by auto
  have c5: "channel (replicate 25 (255, 128, 7)) 5 = 7"
    and c73: "channel (replicate 25 (255, 128, 7)) 73 = 128"
    by (simp_all add: channel_def component_def)
  from encode_frame [OF h] len
  have "length (projr (encode_lsb (replicate 25 (255, 128, 7)) [])) = 25"
    and "channel (projr (encode_lsb (replicate 25 (255, 128, 7)) [])) 5 AND 0xFE
           = channel (replicate 25 (255, 128, 7)) 5 AND 0xFE"
    and "channel (projr (encode_lsb (replicate 25 (255, 128, 7)) [])) 73
           = channel (replicate 25 (255, 128, 7)) 73"
    by simp_all
  with h c5 c73 show ?thesis by simp
qed

text \<open>
  C5, not found: when no prefix of the character stream read from the least significant
  bits ends with the delimiter, the decoder returns the not-found value and raises nothing.
  The empty pixel sequence and every sequence whose least significant bits are all zero
  are such inputs.
\<close>

theorem decode_not_found:
  "((\<forall>k \<le> length (lsb_chars pixels). \<not> suffix delimiter (take k (lsb_chars pixels)))
      \<longrightarrow> decode_lsb pixels = Inr None)
   \<and> decode_lsb [] = Inr None
   \<and> ((\<forall>i < 3 * length pixels. channel pixels i AND 1 = 0) \<longrightarrow> decode_lsb pixels = Inr None)"
proof (intro conjI impI)
  assume "\<forall>k \<le> length (lsb_chars pixels). \<not> suffix delimiter (take k (lsb_chars pixels))"
  then show "decode_lsb pixels = Inr None"
    by (simp add: decode_lsb_scan scan_without_delimiter)
next
  have "extract_bits [] = []" by (simp add: extract_bits_def)
  then have "lsb_chars [] = []" by (simp add: lsb_chars_def chunks8_short)
  then show "decode_lsb [] = Inr None" by (simp add: decode_lsb_scan)
next
  assume "\<forall>i < 3 * length pixels. channel pixels i AND 1 = 0"
  then have zero: "set (lsb_chars pixels) \<subseteq> {0}" by (rule lsb_chars_all_zero)
  have "\<forall>k \<le> length (lsb_chars pixels). \<not> suffix delimiter (take k (lsb_chars pixels))"
  proof (intro allI impI notI)
    fix k
    assume "suffix delimiter (take k (lsb_chars pixels))"
    then have "set delimiter \<subseteq> set (take k (lsb_chars pixels))"
      by (rule set_mono_suffix)
    also have "\<dots> \<subseteq> set (lsb_chars pixels)" by (rule set_take_subset)
    finally have "set delimiter \<subseteq> {0}" using zero by simp
    then show False by (simp add: delimiter_eq)
  qed
  then show "decode_lsb pixels = Inr None"
    by (simp add: decode_lsb_scan scan_without_delimiter)
qed

theorem decode_not_found_witness:
  "lsb_chars [(1, 0, 1), (0, 1, 0), (1, 0, 1)] = [170]
   \<and> decode_lsb [(1, 0, 1), (0, 1, 0), (1, 0, 1)] = Inr None
   \<and> channel [(2, 4, 6)] 0 AND 1 = 0 \<and> channel [(2, 4, 6)] 1 AND 1 = 0
   \<and> channel [(2, 4, 6)] 2 AND 1 = 0
   \<and> decode_lsb [(2, 4, 6)] = Inr None"
proof -
  have bits: "extract_bits [(1, 0, 1), (0, 1, 0), (1, 0, 1)] = ''101010101''"
    by (simp add: extract_bits_def str_lsb_def)
  have chars: "lsb_chars [(1, 0, 1), (0, 1, 0), (1, 0, 1)] = [170]"
    unfolding lsb_chars_def bits
    by (simp add: chunks8_long chunks8_short bin_value_def)
  have h1: "\<forall>k \<le> length (lsb_chars [(1, 0, 1), (0, 1, 0), (1, 0, 1)]).
      \<not> suffix delimiter (take k (lsb_chars [(1, 0, 1), (0, 1, 0), (1, 0, 1)]))"
    unfolding chars using suffix_delimiter_length by fastforce
  have c: "channel [(2, 4, 6)] 0 AND 1 = 0" "channel [(2, 4, 6)] 1 AND 1 = 0"
    "channel [(2, 4, 6)] 2 AND 1 = 0"
    by (simp_all add: channel_def component_def)
  then have h2: "\<forall>i < 3 * length [(2 :: int, 4 :: int, 6 :: int)]. channel [(2, 4, 6)] i AND 1 = 0"
    by (simp add: less_Suc_eq eval_nat_numeral)
  show ?thesis
    using decode_not_found [of "[(1, 0, 1), (0, 1, 0), (1, 0, 1)]"]
      decode_not_found [of "[(2, 4, 6)]"] h1 h2 chars c
    by blast
qed

text \<open>
  C10, trailing bits: the decoder reads only the complete groups of 8 bits. Two pixel
  sequences of the same length whose bits agree up to the last complete group decode to the
  same result, whatever the bits of the final, shorter group are; the character stream has
  one character per complete group; and the shorter group raises nothing.
\<close>

theorem trailing_bits_ignored:
  assumes "length pixels' = length pixels"
    and "take (8 * (3 * length pixels div 8)) (extract_bits pixels')
           = take (8 * (3 * length pixels div 8)) (extract_bits pixels)"
  shows "decode_lsb pixels' = decode_lsb pixels
    \<and> lsb_chars pixels' = lsb_chars pixels
    \<and> length (lsb_chars pixels) = 3 * length pixels div 8
    \<and> (\<exists>r. decode_lsb pixels = Inr r)"
proof -
  have "chunks8 (extract_bits pixels')
      = chunks8 (take (8 * (length (extract_bits pixels') div 8)) (extract_bits pixels'))"
    by (simp only: chunks8_complete)
  also have "\<dots> = chunks8 (take (8 * (length (extract_bits pixels) div 8)) (extract_bits pixels))"
    using assms by (simp add: length_extract_bits)
  also have "\<dots> = chunks8 (extract_bits pixels)"
    by (simp only: chunks8_complete)
  finally have "lsb_chars pixels' = lsb_chars pixels"
    by (simp add: lsb_chars_def)
  then show ?thesis
    by (simp add: decode_lsb_scan lsb_chars_def length_chunks8 length_extract_bits)
qed

theorem trailing_bits_ignored_witness:
  "length [(1, 0, 1), (0, 1, 0), (1, 0, 1 :: int)] = length [(1, 0, 1), (0, 1, 0), (1, 0, 0 :: int)]
   \<and> take 8 (extract_bits [(1, 0, 1), (0, 1, 0), (1, 0, 1)])
        = take 8 (extract_bits [(1, 0, 1), (0, 1, 0), (1, 0, 0)])
   \<and> extract_bits [(1, 0, 1), (0, 1, 0), (1, 0, 1)] \<noteq> extract_bits [(1, 0, 1), (0, 1, 0), (1, 0, 0)]
   \<and> decode_lsb [(1, 0, 1), (0, 1, 0), (1, 0, 1)] = decode_lsb [(1, 0, 1), (0, 1, 0), (1, 0, 0)]
   \<and> length (lsb_chars [(1, 0, 1), (0, 1, 0), (1, 0, 0)]) = 1"
proof -
  have b1: "extract_bits [(1, 0, 1), (0, 1, 0), (1, 0, 1)] = ''101010101''"
    and b0: "extract_bits [(1, 0, 1), (0, 1, 0), (1, 0, 0)] = ''101010100''"
    by (simp_all add: extract_bits_def str_lsb_def)
  have h: "take (8 * (3 * length [(1, 0, 1), (0, 1, 0), (1, 0, 0 :: int)] div 8))
             (extract_bits [(1, 0, 1), (0, 1, 0), (1, 0, 1)])
         = take (8 * (3 * length [(1, 0, 1), (0, 1, 0), (1, 0, 0 :: int)] div 8))
             (extract_bits [(1, 0, 1), (0, 1, 0), (1, 0, 0)])"
    by (simp add: b1 b0)
  show ?thesis
    using trailing_bits_ignored [OF _ h] by (simp add: b1 b0)
qed

text \<open>
  C1, round trip. As stated the law fails: the delimiter starts and ends with the same
  three characters, so a message that ends with a beginning of the delimiter (for example
  \<^verbatim>\<open>|||END\<close>) does not contain the delimiter, yet the framed message contains
  it before its end, and the decoder stops there. The law holds for the messages of
  single-byte characters in whose framed form \<open>M + delimiter\<close> no occurrence of the
  delimiter starts inside \<open>M\<close>: then, if \<open>3 \<times> len(P)\<close> is at least the bit-length
  \<open>8 \<times> (len(M) + 9)\<close> of the framed message, encoding succeeds and decoding the result
  returns exactly \<open>M\<close>.
\<close>

theorem round_trip:
  assumes "single_byte message"
    and "delimiter_only_at_end message"
    and "8 * (length message + 9) \<le> 3 * length pixels"
  shows "\<exists>out. encode_lsb pixels message = Inr out \<and> decode_lsb out = Inr (Some message)"
proof -
  from assms(1,3) obtain out where enc: "encode_lsb pixels message = Inr out"
    by (auto simp add: encode_lsb_Inr length_framed)
  from decode_encoded [OF enc assms(1)] obtain rest
    where "decode_lsb out = Inr (scan ((message @ delimiter) @ rest) [])" ..
  also have "scan ((message @ delimiter) @ rest) [] = Some message"
    using assms(2) by (rule scan_framed)
  finally show ?thesis using enc by blast
qed

theorem round_trip_witness:
  "single_byte [72, 73] \<and> delimiter_only_at_end [72, 73]
   \<and> 8 * (length [72, 73 :: nat] + 9) \<le> 3 * length (replicate 30 (0 :: int, 0 :: int, 0 :: int))
   \<and> (\<exists>out. encode_lsb (replicate 30 (0, 0, 0)) [72, 73] = Inr out
          \<and> decode_lsb out = Inr (Some [72, 73]))"
proof -
  have b: "single_byte [72, 73]"
    by (simp add: single_byte_def)
  have d: "delimiter_only_at_end [72, 73]"
    unfolding delimiter_only_at_end_def
  proof (intro allI impI)
    fix k :: nat
    assume "k < length [72, 73 :: nat]"
    then have "k = 0 \<or> k = 1" by auto
    then show "\<not> prefix delimiter (drop k ([72, 73] @ delimiter))"
      by (auto simp add: delimiter_eq)
  qed
  have c: "8 * (length [72, 73 :: nat] + 9) \<le> 3 * length (replicate 30 (0 :: int, 0 :: int, 0 :: int))"
    by simp
  from round_trip [OF b d c] b d c show ?thesis by blast
qed

theorem round_trip_counterexample:
  "single_byte (py_str ''|||END'')
   \<and> \<not> sublist delimiter (py_str ''|||END'')
   \<and> 8 * (length (py_str ''|||END'') + 9) \<le> 3 * length (replicate 40 (0 :: int, 0 :: int, 0 :: int))
   \<and> encode_lsb (replicate 40 (0, 0, 0)) (py_str ''|||END'')
        = Inr (projr (encode_lsb (replicate 40 (0, 0, 0)) (py_str ''|||END'')))
   \<and> decode_lsb (projr (encode_lsb (replicate 40 (0, 0, 0)) (py_str ''|||END''))) = Inr (Some [])
   \<and> decode_lsb (projr (encode_lsb (replicate 40 (0, 0, 0)) (py_str ''|||END'')))
        \<noteq> Inr (Some (py_str ''|||END''))"
proof -
  let ?m = "py_str ''|||END''"
  let ?out = "projr (encode_lsb (replicate 40 (0, 0, 0)) ?m)"
  have b: "single_byte ?m"
    by (simp add: single_byte_def py_str_def)
  have len: "length ?m = 6"
    by (simp add: py_str_def)
  have no_sub: "\<not> sublist delimiter ?m"
    using sublist_length_le [of delimiter ?m] by (auto simp add: len length_delimiter)
  have "length (binary_message (?m @ delimiter)) = 120"
    using length_framed [OF b] by (simp add: len)
  then have enc: "encode_lsb (replicate 40 (0, 0, 0)) ?m = Inr ?out"
    by (intro encode_lsb_projr) simp
  have framed: "?m @ delimiter = ([] @ delimiter) @ [69, 78, 68, 124, 124, 124]"
    by (simp add: py_str_def delimiter_eq)
  from decode_encoded [OF enc b] obtain rest
    where "decode_lsb ?out = Inr (scan ((?m @ delimiter) @ rest) [])" ..
  also have "(?m @ delimiter) @ rest = ([] @ delimiter) @ ([69, 78, 68, 124, 124, 124] @ rest)"
    by (simp only: framed append_assoc)
  also have "scan \<dots> [] = Some []"
    using delimiter_only_at_end_Nil by (rule scan_framed)
  finally have dec: "decode_lsb ?out = Inr (Some [])" .
  moreover have "?m \<noteq> []" using len by auto
  ultimately have "decode_lsb ?out \<noteq> Inr (Some ?m)" by simp
  with b no_sub len enc dec show ?thesis by simp
qed

text \<open>
  C6, characters above 255. The encoder has no check of the code points and no error of
  its own for them: \<^verbatim>\<open>format(ord(char), '08b')\<close> writes all the binary digits of such a
  character, more than 8, so the framed bitstream is longer than \<open>8 \<times> (len(M) + 9)\<close>; the
  encoding succeeds exactly when that bitstream fits into \<open>3 \<times> len(P)\<close> channels, and the
  only error is \<open>CapacityExceeded\<close>.
\<close>

theorem encode_no_rejection:
  assumes "\<not> single_byte message"
  shows "8 * (length message + 9) < length (binary_message (message @ delimiter))
    \<and> ((\<exists>out. encode_lsb pixels message = Inr out)
          \<longleftrightarrow> length (binary_message (message @ delimiter)) \<le> 3 * length pixels)
    \<and> (\<forall>e. encode_lsb pixels message = Inl e
          \<longrightarrow> e = CapacityExceeded (3 * length pixels div 8))"
  using length_framed_big [OF assms] by (simp add: encode_lsb_Inr encode_lsb_Inl)

theorem encode_no_rejection_witness:
  "\<not> single_byte [256]
   \<and> 8 * (length [256 :: nat] + 9) < length (binary_message ([256] @ delimiter))
   \<and> length (binary_message ([256] @ delimiter)) = 81
   \<and> (\<exists>out. encode_lsb (replicate 27 (0, 0, 0)) [256] = Inr out)"
proof -
  have b: "\<not> single_byte [256]"
    by (simp add: single_byte_def)
  have "length (binary_message delimiter) = 72"
    using length_binary_message [OF delimiter_bytes] by (simp add: length_delimiter)
  moreover have "binary_message [256] = ''100000000''"
    by (simp add: binary_message_def format_08b_def bin_digits_256)
  ultimately have len: "length (binary_message ([256] @ delimiter)) = 81"
    by (simp only: binary_message_append length_append) simp
  show ?thesis
    using encode_no_rejection [OF b, of "replicate 27 (0, 0, 0)"] b len
    by (simp only: len) simp
qed

theorem encode_rejection_counterexample:
  "(256 :: nat) \<in> set [256] \<and> (255 :: nat) < 256
   \<and> binary_message [256] = ''100000000''
   \<and> encode_lsb (replicate 27 (0, 0, 0)) [256]
        = Inr (projr (encode_lsb (replicate 27 (0, 0, 0)) [256]))"
proof -
  have "length (binary_message delimiter) = 72"
    using length_binary_message [OF delimiter_bytes] by (simp add: length_delimiter)
  moreover have bm: "binary_message [256] = ''100000000''"
    by (simp add: binary_message_def format_08b_def bin_digits_256)
  ultimately have "length (binary_message ([256] @ delimiter)) = 81"
    by (simp only: binary_message_append length_append) simp
  then have "encode_lsb (replicate 27 (0, 0, 0)) [256]
      = Inr (projr (encode_lsb (replicate 27 (0, 0, 0)) [256]))"
    by (intro encode_lsb_projr) simp
  with bm show ?thesis by simp
qed

text \<open>
  C8, the concrete scenario. The framed message \<^verbatim>\<open>HI|||END|||\<close> has 11 characters, 88
  bits; 10 pixels offer 30 channels, so the encoding into 10 all-zero pixels fails with
  \<open>CapacityExceeded\<close>, reporting at most 3 characters. With 30 all-zero pixels (90
  channels) the scenario holds: the encoding succeeds, the first 16 least significant bits
  in red, green, blue order are \<^verbatim>\<open>0100100001001001\<close>, the next 72 are the bits of the
  delimiter, the last two channels keep their zero bit, and decoding returns \<^verbatim>\<open>HI\<close>.
\<close>

theorem concrete_scenario:
  "encode_lsb (replicate 10 (0, 0, 0)) (py_str ''HI'') = Inl (CapacityExceeded 3)
   \<and> encode_lsb (replicate 30 (0, 0, 0)) (py_str ''HI'')
        = Inr (projr (encode_lsb (replicate 30 (0, 0, 0)) (py_str ''HI'')))
   \<and> take 16 (extract_bits (projr (encode_lsb (replicate 30 (0, 0, 0)) (py_str ''HI''))))
        = ''0100100001001001''
   \<and> take 72 (drop 16 (extract_bits (projr (encode_lsb (replicate 30 (0, 0, 0)) (py_str ''HI'')))))
        = binary_message delimiter
   \<and> drop 88 (extract_bits (projr (encode_lsb (replicate 30 (0, 0, 0)) (py_str ''HI''))))
        = ''00''
   \<and> decode_lsb (projr (encode_lsb (replicate 30 (0, 0, 0)) (py_str ''HI'')))
        = Inr (Some (py_str ''HI''))"
proof -
  let ?out = "projr (encode_lsb (replicate 30 (0, 0, 0)) [72, 73])"
  have b: "single_byte [72, 73]"
    by (simp add: single_byte_def)
  have len: "length (binary_message ([72, 73] @ delimiter)) = 88"
    using length_framed [OF b] by simp
  have small: "encode_lsb (replicate 10 (0, 0, 0)) [72, 73] = Inl (CapacityExceeded 3)"
    unfolding encode_lsb_eq len by simp
  have enc: "encode_lsb (replicate 30 (0, 0, 0)) [72, 73] = Inr ?out"
    using len by (intro encode_lsb_projr) simp
  have hi: "binary_message [72, 73] = ''0100100001001001''"
    by (simp add: binary_message_def format_08b_H format_08b_I)
  have dl: "length (binary_message delimiter) = 72"
    using length_binary_message [OF delimiter_bytes] by (simp add: length_delimiter)
  have "extract_bits ?out = binary_message ([72, 73] @ delimiter)
      @ drop 88 (extract_bits (replicate 30 (0, 0, 0)))"
    using extract_bits_encoded [OF enc] by (simp only: len)
  also have "drop 88 (extract_bits (replicate 30 (0, 0, 0))) = replicate 2 CHR ''0''"
    by (simp add: extract_bits_zero_pixels)
  also have "replicate 2 CHR ''0'' = ''00''"
    by (simp add: numeral_2_eq_2)
  finally have bits: "extract_bits ?out
      = ''0100100001001001'' @ binary_message delimiter @ ''00''"
    by (simp only: binary_message_append hi append_assoc)
  have t16: "take 16 (extract_bits ?out) = ''0100100001001001''"
    unfolding bits by simp
  have t72: "take 72 (drop 16 (extract_bits ?out)) = binary_message delimiter"
    unfolding bits by (simp add: dl)
  have d88: "drop 88 (extract_bits ?out) = ''00''"
    unfolding bits by (simp add: dl)
  have dec: "decode_lsb ?out = Inr (Some [72, 73])"
    using enc b delimiter_only_at_end_HI by (rule decode_encoded_framed)
  from small enc t16 t72 d88 dec show ?thesis
    by (simp only: py_str_HI simp_thms)
qed

theorem concrete_scenario_counterexample:
  "length (replicate 10 (0 :: int, 0 :: int, 0 :: int)) = 10
   \<and> encode_lsb (replicate 10 (0, 0, 0)) (py_str ''HI'') = Inl (CapacityExceeded 3)
   \<and> encode_lsb (replicate 10 (0, 0, 0)) (py_str ''HI'')
        \<noteq> Inr (projr (encode_lsb (replicate 10 (0, 0, 0)) (py_str ''HI'')))"
proof -
  have b: "single_byte (py_str ''HI'')"
    by (simp add: single_byte_def py_str_def)
  have "length (binary_message (py_str ''HI'' @ delimiter)) = 88"
    using length_framed [OF b] by (simp add: py_str_def)
  then have "encode_lsb (replicate 10 (0, 0, 0)) (py_str ''HI'') = Inl (CapacityExceeded 3)"
    unfolding encode_lsb_eq by simp
  then show ?thesis by simp
qed

end
